theory Spec2Isabelle
  imports Main
begin

section \<open>celery.utils.functional: values, errors, iterators\<close>

text \<open>
  The module works on arbitrary Python objects. Two facts about an object matter to it:
  whether it is \<open>None\<close> (the default of \<open>mlazy._value\<close>, the default of \<open>next\<close> in
  \<open>first\<close>, the test \<open>v is not None\<close>) and whether it is an instance of vine's
  \<open>promise\<close> (the test of \<open>evaluate_promises\<close>). Every other object is \<open>Plain\<close>.
\<close>

datatype ('a, 'p) pyval = PyNone | Plain 'a | Promise 'p

text \<open>The only exception the module raises itself.\<close>

datatype error = IndexError

text \<open>
  An iterator is a \<open>next\<close> function on the state it lives in: \<open>None\<close> is StopIteration.
  \<open>list_next\<close> is the iterator of a one-pass source whose remaining output is the state.
\<close>

definition list_next :: "'a list \<Rightarrow> 'a option \<times> 'a list" where
  "list_next xs = (case xs of [] \<Rightarrow> (None, []) | x # rest \<Rightarrow> (Some x, rest))"

text \<open>
  \<open>list(iterator)\<close> and every other loop that runs an iterator to its end. An iterator
  need not finish, so not returning is the value \<open>None\<close>.
\<close>

partial_function (option) drain :: "('s \<Rightarrow> 'v option \<times> 's) \<Rightarrow> 's \<Rightarrow> ('v list \<times> 's) option" where
  "drain nxt s =
     (case nxt s of
        (None, s') \<Rightarrow> Some ([], s')
      | (Some v, s') \<Rightarrow> Option.bind (drain nxt s') (\<lambda>(vs, s''). Some (v # vs, s'')))"

text \<open>Python list indexing \<open>xs[i]\<close>: a negative index counts from the end.\<close>

definition list_getitem :: "'a list \<Rightarrow> int \<Rightarrow> error + 'a" where
  "list_getitem xs i =
     (if 0 \<le> i \<and> i < int (length xs) then Inr (xs ! nat i)
      else if i < 0 \<and> - int (length xs) \<le> i then Inr (xs ! nat (int (length xs) + i))
      else Inl IndexError)"

section \<open>mlazy\<close>

text \<open>
  \<open>evaluated = False\<close> and \<open>_value = None\<close> are the class defaults. The base class
  \<open>lazy\<close> is kombu's: \<open>super().evaluate()\<close> calls the wrapped function, which is the
  parameter \<open>fn\<close> here, a computation on the world \<open>'w\<close> it reads and changes that
  either raises (\<open>Inl\<close>) or returns.
\<close>

record ('a, 'p) mlazy =
  evaluated :: bool
  m_value :: "('a, 'p) pyval"

definition mlazy_new :: "('a, 'p) mlazy" where
  "mlazy_new = \<lparr>evaluated = False, m_value = PyNone\<rparr>"

definition evaluate ::
  "('w \<Rightarrow> ('e + ('a, 'p) pyval) \<times> 'w) \<Rightarrow> ('a, 'p) mlazy \<times> 'w
     \<Rightarrow> ('e + ('a, 'p) pyval) \<times> ('a, 'p) mlazy \<times> 'w" where
  "evaluate fn = (\<lambda>(m, w).
     if \<not> evaluated m then
       (case fn w of
          (Inl e, w') \<Rightarrow> (Inl e, m, w')
        | (Inr v, w') \<Rightarrow>
            (let m' = m\<lparr>m_value := v\<rparr>; m'' = m'\<lparr>evaluated := True\<rparr>
             in (Inr (m_value m''), m'', w')))
     else (Inr (m_value m), m, w))"

text \<open>A caller that calls \<open>evaluate()\<close> \<open>k\<close> times in a row and keeps every outcome.\<close>

fun evaluate_times ::
  "nat \<Rightarrow> ('w \<Rightarrow> ('e + ('a, 'p) pyval) \<times> 'w) \<Rightarrow> ('a, 'p) mlazy \<times> 'w
     \<Rightarrow> ('e + ('a, 'p) pyval) list \<times> ('a, 'p) mlazy \<times> 'w" where
  "evaluate_times 0 fn mw = ([], mw)"
| "evaluate_times (Suc k) fn mw =
     (case evaluate fn mw of
        (r, mw') \<Rightarrow> (case evaluate_times k fn mw' of (rs, mw'') \<Rightarrow> (r # rs, mw'')))"

text \<open>A computation with an invocation counter: the world is the counter and the rest.\<close>

definition counting :: "('w \<Rightarrow> 'r \<times> 'w) \<Rightarrow> nat \<times> 'w \<Rightarrow> 'r \<times> (nat \<times> 'w)" where
  "counting fn = (\<lambda>(n, w). case fn w of (r, w') \<Rightarrow> (r, (Suc n, w')))"

section \<open>evaluate\_promises and first\<close>

text \<open>
  \<open>evaluate_promises(it)\<close> is a generator over \<open>it\<close>. Its \<open>next\<close> pulls one value from
  the iterator of \<open>it\<close> and, if the value is a promise, calls it once and yields what the
  call returns. Calling a promise is vine's code: the parameter \<open>call\<close>, which returns a
  value and may change the world \<open>'w\<close>.
\<close>

definition evaluate_promises ::
  "('p \<Rightarrow> 'w \<Rightarrow> ('a, 'p) pyval \<times> 'w) \<Rightarrow> ('s \<Rightarrow> ('a, 'p) pyval option \<times> 's)
     \<Rightarrow> 's \<times> 'w \<Rightarrow> ('a, 'p) pyval option \<times> ('s \<times> 'w)" where
  "evaluate_promises call nxt = (\<lambda>(s, w).
     case nxt s of
       (None, s') \<Rightarrow> (None, (s', w))
     | (Some v, s') \<Rightarrow>
         (case v of
            Promise p \<Rightarrow> (case call p w of (r, w') \<Rightarrow> (Some r, (s', w')))
          | _ \<Rightarrow> (Some v, (s', w))))"

text \<open>
  The generator expression \<open>(v for v in g if cond(v))\<close>: its \<open>next\<close> pulls from \<open>g\<close>
  until a value passes the condition or \<open>g\<close> ends.
\<close>

partial_function (option) genexp_next ::
  "('v \<Rightarrow> bool) \<Rightarrow> ('s \<Rightarrow> 'v option \<times> 's) \<Rightarrow> 's \<Rightarrow> ('v option \<times> 's) option" where
  "genexp_next cond nxt s =
     (case nxt s of
        (None, s') \<Rightarrow> Some (None, s')
      | (Some v, s') \<Rightarrow> if cond v then Some (Some v, s') else genexp_next cond nxt s')"

text \<open>
  \<open>first(predicate, it)\<close> is \<open>next(genexp, None)\<close>: one pull of the generator
  expression, with \<open>None\<close> when it ends. \<open>predicate\<close> may be \<open>None\<close>.
\<close>

definition first ::
  "(('a, 'p) pyval \<Rightarrow> bool) option \<Rightarrow> ('p \<Rightarrow> 'w \<Rightarrow> ('a, 'p) pyval \<times> 'w)
     \<Rightarrow> ('s \<Rightarrow> ('a, 'p) pyval option \<times> 's) \<Rightarrow> 's \<times> 'w
     \<Rightarrow> (('a, 'p) pyval \<times> ('s \<times> 'w)) option" where
  "first predicate call nxt sw =
     (case genexp_next
             (\<lambda>v. case predicate of Some f \<Rightarrow> f v | None \<Rightarrow> v \<noteq> PyNone)
             (evaluate_promises call nxt) sw of
        None \<Rightarrow> None
      | Some (None, sw') \<Rightarrow> Some (PyNone, sw')
      | Some (Some v, sw') \<Rightarrow> Some (v, sw'))"

text \<open>
  A promise call that returns \<open>f p\<close> and records the call: the world is the list of the
  promises called so far, oldest first.
\<close>

definition logged :: "('p \<Rightarrow> ('a, 'p) pyval) \<Rightarrow> 'p \<Rightarrow> 'p list \<Rightarrow> ('a, 'p) pyval \<times> 'p list" where
  "logged f p calls = (f p, calls @ [p])"

text \<open>One level of unwrapping of one element, and the promises of a sequence, in order.\<close>

definition unwrap_once :: "('p \<Rightarrow> ('a, 'p) pyval) \<Rightarrow> ('a, 'p) pyval \<Rightarrow> ('a, 'p) pyval" where
  "unwrap_once f v = (case v of Promise p \<Rightarrow> f p | _ \<Rightarrow> v)"

fun promises_of :: "('a, 'p) pyval list \<Rightarrow> 'p list" where
  "promises_of [] = []"
| "promises_of (Promise p # vs) = p # promises_of vs"
| "promises_of (v # vs) = promises_of vs"

text \<open>
  The pass as the specification words it, on a whole sequence: in order, each element that
  is a promise is called once and what the call returns takes its place, whatever it is;
  every other element stays as it is.
\<close>

fun resolve_each ::
  "('p \<Rightarrow> 'w \<Rightarrow> ('a, 'p) pyval \<times> 'w) \<Rightarrow> ('a, 'p) pyval list \<Rightarrow> 'w
     \<Rightarrow> ('a, 'p) pyval list \<times> 'w" where
  "resolve_each call [] w = ([], w)"
| "resolve_each call (Promise p # vs) w =
     (case call p w of
        (r, w') \<Rightarrow> (case resolve_each call vs w' of (rs, w'') \<Rightarrow> (r # rs, w'')))"
| "resolve_each call (v # vs) w =
     (case resolve_each call vs w of (rs, w') \<Rightarrow> (v # rs, w'))"

section \<open>regen and \_regen\<close>

text \<open>
  The three private attributes of \<open>_regen\<close>. \<open>__it\<close> is a one-pass iterator (a
  generator): the model holds the elements it has not produced yet, and \<open>next(self.__it)\<close>
  is \<open>list_next\<close> on them.
\<close>

record 'a regen_obj =
  regen_it :: "'a list"
  regen_index :: int
  regen_consumed :: "'a list"

text \<open>
  What \<open>regen\<close> is given: a list, a tuple, a \<open>_regen\<close> built earlier, or a generator with
  its pending output. The generator stands for every one-pass iterator, which is what
  \<open>next(self.__it)\<close> needs the source to be.
\<close>

datatype 'a iterable =
  PyList "'a list" | PyTuple "'a list" | Regen "'a regen_obj" | Generator (pending: "'a list")

text \<open>
  \<open>isinstance(it, (list, tuple))\<close>. The class is declared \<open>class _regen(UserList, list)\<close>,
  so a \<open>_regen\<close> is an instance of \<open>list\<close>.
\<close>

fun isinstance_list_tuple :: "'a iterable \<Rightarrow> bool" where
  "isinstance_list_tuple (PyList xs) = True"
| "isinstance_list_tuple (PyTuple xs) = True"
| "isinstance_list_tuple (Regen r) = True"
| "isinstance_list_tuple (Generator xs) = False"

text \<open>
  \<open>_regen.__init__\<close>. \<open>regen\<close> calls it on what is neither a list nor a tuple, which
  among the inputs above is a generator: the new object's source is the generator's
  pending output.
\<close>

definition regen_init :: "'a iterable \<Rightarrow> 'a regen_obj" where
  "regen_init it = \<lparr>regen_it = pending it, regen_index = 0, regen_consumed = []\<rparr>"

definition regen :: "'a iterable \<Rightarrow> 'a iterable" where
  "regen it = (if isinstance_list_tuple it then it else Regen (regen_init it))"

text \<open>
  The property \<open>data\<close>: \<open>self.__consumed.extend(list(self.__it))\<close>, then the buffer.
  \<open>list\<close> of a one-pass source takes all it has left and raises nothing, so the
  \<open>except StopIteration\<close> clause has no branch here.
\<close>

definition data :: "'a regen_obj \<Rightarrow> 'a list \<times> 'a regen_obj" where
  "data r =
     (let r' = r\<lparr>regen_it := [], regen_consumed := regen_consumed r @ regen_it r\<rparr>
      in (regen_consumed r', r'))"

text \<open>
  \<open>__reduce__\<close> returns \<open>(list, (self.data,))\<close>: the constructor \<open>list\<close> and its one
  argument.
\<close>

datatype 'a reduction = ListOf "'a list"

definition reduce :: "'a regen_obj \<Rightarrow> 'a reduction \<times> 'a regen_obj" where
  "reduce r = (case data r of (d, r') \<Rightarrow> (ListOf d, r'))"

text \<open>
  \<open>__iter__\<close> returns \<open>chain(self.__consumed, self.__it)\<close>. The chain object reads the
  buffer through a list iterator (a position in the live list) and, once that is past the
  buffer's end, pulls from the source for good. It never writes to the buffer.
\<close>

datatype chain_pos = InConsumed nat | InSource

definition iter_regen :: "'a regen_obj \<Rightarrow> chain_pos \<times> 'a regen_obj" where
  "iter_regen r = (InConsumed 0, r)"

definition source_next :: "'a regen_obj \<Rightarrow> 'a option \<times> (chain_pos \<times> 'a regen_obj)" where
  "source_next r =
     (case list_next (regen_it r) of (v, rest) \<Rightarrow> (v, (InSource, r\<lparr>regen_it := rest\<rparr>)))"

fun chain_next :: "chain_pos \<times> 'a regen_obj \<Rightarrow> 'a option \<times> (chain_pos \<times> 'a regen_obj)" where
  "chain_next (InConsumed k, r) =
     (if k < length (regen_consumed r) then (Some (regen_consumed r ! k), (InConsumed (Suc k), r))
      else source_next r)"
| "chain_next (InSource, r) = source_next r"

text \<open>
  \<open>__getitem__\<close>. A negative index reads \<open>self.data[index]\<close>. Otherwise the buffer is
  tried first; on its IndexError the loop below runs from \<open>self.__index\<close>, which no
  method ever assigns after \<open>__init__\<close>, to \<open>index\<close> inclusive, and then the buffer is
  read again.

  The loop of \<open>__getitem__\<close>, \<open>for i in range(a, b): self.__consumed.append(next(self.__it))\<close>,
  with \<open>k\<close> the number of passes left: \<open>True\<close> when the loop ends, \<open>False\<close> when \<open>next\<close>
  raises StopIteration.
\<close>

fun pull_range :: "nat \<Rightarrow> 'a regen_obj \<Rightarrow> bool \<times> 'a regen_obj" where
  "pull_range 0 r = (True, r)"
| "pull_range (Suc k) r =
     (case list_next (regen_it r) of
        (None, rest) \<Rightarrow> (False, r\<lparr>regen_it := rest\<rparr>)
      | (Some x, rest) \<Rightarrow>
          pull_range k (r\<lparr>regen_it := rest, regen_consumed := regen_consumed r @ [x]\<rparr>))"

definition getitem :: "int \<Rightarrow> 'a regen_obj \<Rightarrow> (error + 'a) \<times> 'a regen_obj" where
  "getitem i r =
     (if i < 0 then (case data r of (d, r') \<Rightarrow> (list_getitem d i, r'))
      else
        (case list_getitem (regen_consumed r) i of
           Inr v \<Rightarrow> (Inr v, r)
         | Inl IndexError \<Rightarrow>
             (case pull_range (nat (i + 1 - regen_index r)) r of
                (False, r') \<Rightarrow> (Inl IndexError, r')
              | (True, r') \<Rightarrow> (list_getitem (regen_consumed r') i, r'))))"

text \<open>
  A caller's accesses that go through \<open>__getitem__\<close> and \<open>data\<close> only, run in order.
\<close>

datatype access = Index int | Materialize

fun run_access :: "access list \<Rightarrow> 'a regen_obj \<Rightarrow> 'a regen_obj" where
  "run_access [] r = r"
| "run_access (Index i # as) r = run_access as (snd (getitem i r))"
| "run_access (Materialize # as) r = run_access as (snd (data r))"

text \<open>
  The cache invariant in the specification's words, for a wrapper whose source yields
  \<open>out\<close> over its lifetime: the cursor is the number of elements pulled so far, and the
  buffer up to the cursor is the first that many elements of \<open>out\<close>.
\<close>

definition cache_invariant :: "'a list \<Rightarrow> 'a regen_obj \<Rightarrow> bool" where
  "cache_invariant out r =
     (let cursor = length out - length (regen_it r)
      in take cursor (regen_consumed r) = take cursor out)"

text \<open>
  The spec's "concrete, fixed-length sequence": a list or a tuple. A wrapper is not one;
  the spec says it behaves like one only once its source is exhausted.
\<close>

definition concrete_fixed_sequence :: "'a iterable \<Rightarrow> bool" where
  "concrete_fixed_sequence it = (case it of PyList xs \<Rightarrow> True | PyTuple xs \<Rightarrow> True | _ \<Rightarrow> False)"

section \<open>The examples of the specification\<close>

text \<open>The predicate \<open>lambda x: x > 3\<close> and a generator yielding 1, 2, 3, 4, 5, 6.\<close>

definition gt3 :: "(int, 'p) pyval \<Rightarrow> bool" where
  "gt3 v = (case v of Plain n \<Rightarrow> 3 < n | _ \<Rightarrow> False)"

definition one_to_six :: "(int, 'p) pyval list" where
  "one_to_six = [Plain 1, Plain 2, Plain 3, Plain 4, Plain 5, Plain 6]"

text \<open>
  A computation that raises on its first run and returns 42 on every later one; the world
  is the number of runs so far.
\<close>

definition flaky :: "nat \<Rightarrow> (string + (int, unit) pyval) \<times> nat" where
  "flaky n = (if n = 0 then Inl ''boom'' else Inr (Plain 42), Suc n)"

section \<open>Running iterators to their end\<close>

lemma drain_stop: "nxt s = (None, s') \<Longrightarrow> drain nxt s = Some ([], s')"
  by (subst drain.simps) simp

lemma drain_step:
  "nxt s = (Some v, s') \<Longrightarrow> drain nxt s' = Some (vs, s'') \<Longrightarrow> drain nxt s = Some (v # vs, s'')"
  by (subst drain.simps) simp

lemma drain_list_next: "drain list_next xs = Some (xs, [])"
proof (induction xs)
  case Nil
  show ?case by (rule drain_stop) (simp add: list_next_def)
next
  case (Cons x xs)
  show ?case by (rule drain_step [OF _ Cons.IH]) (simp add: list_next_def)
qed

lemma drain_source_aux:
  "regen_it r = xs \<Longrightarrow>
   drain chain_next (InSource, r) = Some (xs, (InSource, r\<lparr>regen_it := []\<rparr>))"
proof (induction xs arbitrary: r)
  case Nil
  then have "chain_next (InSource, r) = (None, (InSource, r\<lparr>regen_it := []\<rparr>))"
    by (simp add: source_next_def list_next_def)
  then show ?case by (rule drain_stop)
next
  case (Cons x xs)
  have step: "chain_next (InSource, r) = (Some x, (InSource, r\<lparr>regen_it := xs\<rparr>))"
    using Cons.prems by (simp add: source_next_def list_next_def)
  have rest: "drain chain_next (InSource, r\<lparr>regen_it := xs\<rparr>)
          = Some (xs, (InSource, r\<lparr>regen_it := []\<rparr>))"
    using Cons.IH [of "r\<lparr>regen_it := xs\<rparr>"] by simp
  show ?case by (rule drain_step [OF step rest])
qed

lemma drain_source:
  "drain chain_next (InSource, r) = Some (regen_it r, (InSource, r\<lparr>regen_it := []\<rparr>))"
  by (rule drain_source_aux) simp

lemma drain_consumed:
  "k \<le> length (regen_consumed r) \<Longrightarrow>
   drain chain_next (InConsumed k, r)
     = Some (drop k (regen_consumed r) @ regen_it r, (InSource, r\<lparr>regen_it := []\<rparr>))"
proof (induction "length (regen_consumed r) - k" arbitrary: k)
  case 0
  then have k: "k = length (regen_consumed r)" by simp
  show ?case
  proof (cases "regen_it r")
    case Nil
    then have "chain_next (InConsumed k, r) = (None, (InSource, r\<lparr>regen_it := []\<rparr>))"
      using k by (simp add: source_next_def list_next_def)
    then show ?thesis using k Nil by (simp add: drain_stop)
  next
    case (Cons x xs)
    then have "chain_next (InConsumed k, r) = (Some x, (InSource, r\<lparr>regen_it := xs\<rparr>))"
      using k by (simp add: source_next_def list_next_def)
    moreover have "drain chain_next (InSource, r\<lparr>regen_it := xs\<rparr>)
          = Some (xs, (InSource, r\<lparr>regen_it := []\<rparr>))"
      using drain_source [of "r\<lparr>regen_it := xs\<rparr>"] by simp
    ultimately show ?thesis using k Cons by (simp add: drain_step)
  qed
next
  case (Suc n)
  then have lt: "k < length (regen_consumed r)" by simp
  then have "chain_next (InConsumed k, r) = (Some (regen_consumed r ! k), (InConsumed (Suc k), r))"
    by simp
  moreover have "drain chain_next (InConsumed (Suc k), r)
     = Some (drop (Suc k) (regen_consumed r) @ regen_it r, (InSource, r\<lparr>regen_it := []\<rparr>))"
    using Suc.hyps(1) [of "Suc k"] Suc.hyps(2) lt by simp
  ultimately show ?case using lt by (simp add: drain_step Cons_nth_drop_Suc)
qed

lemma drain_iter_regen:
  "drain chain_next (iter_regen r)
     = Some (regen_consumed r @ regen_it r, (InSource, r\<lparr>regen_it := []\<rparr>))"
  using drain_consumed [of 0 r] by (simp add: iter_regen_def)

section \<open>evaluate\_promises and first on iterators\<close>

lemma evaluate_promises_end:
  "evaluate_promises call list_next ([], w) = (None, ([], w))"
  by (simp add: evaluate_promises_def list_next_def)

lemma drain_evaluate_promises:
  "drain (evaluate_promises call list_next) (vs, w)
     = Some (fst (resolve_each call vs w), ([], snd (resolve_each call vs w)))"
proof (induction vs arbitrary: w)
  case Nil
  show ?case
    using drain_stop [of "evaluate_promises call list_next" "([], w)" "([], w)"]
    by (simp add: evaluate_promises_end)
next
  case (Cons v vs)
  show ?case
  proof (cases v)
    case (Promise p)
    obtain r w' where c: "call p w = (r, w')" by (cases "call p w")
    have step: "evaluate_promises call list_next (v # vs, w) = (Some r, (vs, w'))"
      using Promise c by (simp add: evaluate_promises_def list_next_def)
    show ?thesis
      using drain_step [where nxt = "evaluate_promises call list_next", OF step Cons.IH]
        Promise c by (simp add: split_beta)
  next
    case PyNone
    have step: "evaluate_promises call list_next (v # vs, w) = (Some v, (vs, w))"
      using PyNone by (simp add: evaluate_promises_def list_next_def)
    show ?thesis
      using drain_step [where nxt = "evaluate_promises call list_next", OF step Cons.IH]
        PyNone by (simp add: split_beta)
  next
    case (Plain x)
    have step: "evaluate_promises call list_next (v # vs, w) = (Some v, (vs, w))"
      using Plain by (simp add: evaluate_promises_def list_next_def)
    show ?thesis
      using drain_step [where nxt = "evaluate_promises call list_next", OF step Cons.IH]
        Plain by (simp add: split_beta)
  qed
qed

lemma resolve_each_logged:
  "resolve_each (logged f) vs calls = (map (unwrap_once f) vs, calls @ promises_of vs)"
proof (induction vs arbitrary: calls)
  case Nil
  show ?case by simp
next
  case (Cons v vs)
  have call: "\<And>p. logged f p calls = (f p, calls @ [p])"
    by (simp add: logged_def)
  show ?case by (cases v) (simp_all add: Cons.IH call unwrap_once_def)
qed

lemma first_pull_plain_source:
  "genexp_next cond (evaluate_promises call chain_next)
      ((InSource, \<lparr>regen_it = Plain x # xs, regen_index = i, regen_consumed = c\<rparr>), w)
     = (if cond (Plain x)
        then Some (Some (Plain x), ((InSource, \<lparr>regen_it = xs, regen_index = i, regen_consumed = c\<rparr>), w))
        else genexp_next cond (evaluate_promises call chain_next)
               ((InSource, \<lparr>regen_it = xs, regen_index = i, regen_consumed = c\<rparr>), w))"
  by (subst genexp_next.simps) (simp add: evaluate_promises_def source_next_def list_next_def)

lemma first_pull_plain_fresh:
  "genexp_next cond (evaluate_promises call chain_next)
      ((InConsumed 0, \<lparr>regen_it = Plain x # xs, regen_index = i, regen_consumed = []\<rparr>), w)
     = (if cond (Plain x)
        then Some (Some (Plain x), ((InSource, \<lparr>regen_it = xs, regen_index = i, regen_consumed = []\<rparr>), w))
        else genexp_next cond (evaluate_promises call chain_next)
               ((InSource, \<lparr>regen_it = xs, regen_index = i, regen_consumed = []\<rparr>), w))"
  by (subst genexp_next.simps) (simp add: evaluate_promises_def source_next_def list_next_def)

section \<open>\_regen: data, \_\_getitem\_\_\<close>

lemma pull_range_eq:
  "pull_range k r =
     (if k \<le> length (regen_it r)
      then (True, r\<lparr>regen_it := drop k (regen_it r),
                     regen_consumed := regen_consumed r @ take k (regen_it r)\<rparr>)
      else (False, r\<lparr>regen_it := [], regen_consumed := regen_consumed r @ regen_it r\<rparr>))"
proof (induction k arbitrary: r)
  case 0
  show ?case by simp
next
  case (Suc k)
  show ?case
  proof (cases "regen_it r")
    case Nil
    then show ?thesis by (simp add: list_next_def)
  next
    case (Cons x xs)
    then show ?thesis by (simp add: list_next_def Suc.IH)
  qed
qed

lemma data_eq:
  "data r = (regen_consumed r @ regen_it r,
             r\<lparr>regen_it := [], regen_consumed := regen_consumed r @ regen_it r\<rparr>)"
  by (simp add: data_def Let_def)

lemma data_keeps_elements:
  "regen_consumed (snd (data r)) @ regen_it (snd (data r)) = regen_consumed r @ regen_it r"
  by (simp add: data_eq)

lemma getitem_cached:
  "0 \<le> i \<Longrightarrow> i < int (length (regen_consumed r)) \<Longrightarrow>
   getitem i r = (Inr (regen_consumed r ! nat i), r)"
  by (simp add: getitem_def list_getitem_def)

lemma getitem_keeps_elements:
  "regen_consumed (snd (getitem i r)) @ regen_it (snd (getitem i r))
     = regen_consumed r @ regen_it r"
  by (simp add: getitem_def data_eq pull_range_eq split: sum.split error.split)

lemma run_access_keeps_elements:
  "regen_consumed (run_access as r) @ regen_it (run_access as r)
     = regen_consumed r @ regen_it r"
proof (induction as arbitrary: r)
  case Nil
  show ?case by simp
next
  case (Cons a as)
  show ?case
    by (cases a) (simp_all add: Cons.IH getitem_keeps_elements data_keeps_elements)
qed

lemma cache_invariant_split:
  "regen_consumed r @ regen_it r = out \<Longrightarrow> cache_invariant out r"
  by (auto simp add: cache_invariant_def Let_def)

lemma cache_invariant_run_access:
  "cache_invariant xs (run_access as (regen_init (Generator xs)))"
  by (rule cache_invariant_split) (simp add: run_access_keeps_elements regen_init_def)

lemma getitem_fresh:
  "0 \<le> i \<Longrightarrow>
   getitem i (regen_init (Generator xs)) =
     (if i < int (length xs)
      then (Inr (xs ! nat i),
            \<lparr>regen_it = drop (nat i + 1) xs, regen_index = 0, regen_consumed = take (nat i + 1) xs\<rparr>)
      else (Inl IndexError, \<lparr>regen_it = [], regen_index = 0, regen_consumed = xs\<rparr>))"
  by (auto simp add: getitem_def regen_init_def list_getitem_def pull_range_eq nat_add_distrib
      nat_le_iff)

lemma getitem_drained:
  "getitem j \<lparr>regen_it = [], regen_index = 0, regen_consumed = xs\<rparr>
     = (list_getitem xs j, \<lparr>regen_it = [], regen_index = 0, regen_consumed = xs\<rparr>)"
  by (auto simp add: getitem_def data_eq pull_range_eq list_getitem_def nat_le_iff
      split: sum.split error.split)

lemma getitem_negative_fresh:
  "i < 0 \<Longrightarrow>
   getitem i (regen_init (Generator xs)) =
     (if - int (length xs) \<le> i then Inr (xs ! nat (int (length xs) + i)) else Inl IndexError,
      \<lparr>regen_it = [], regen_index = 0, regen_consumed = xs\<rparr>)"
  by (simp add: getitem_def data_eq regen_init_def list_getitem_def)

lemma nth_last_int: "xs \<noteq> [] \<Longrightarrow> xs ! nat (int (length xs) + - 1) = last xs"
  by (simp add: last_conv_nth nat_diff_distrib')

section \<open>mlazy.evaluate\<close>

lemma evaluate_cached:
  "evaluated m \<Longrightarrow> evaluate fn (m, w) = (Inr (m_value m), m, w)"
  by (simp add: evaluate_def)

lemma evaluate_failure:
  "\<not> evaluated m \<Longrightarrow> fn w = (Inl e, w') \<Longrightarrow> evaluate fn (m, w) = (Inl e, m, w')"
  by (simp add: evaluate_def)

lemma evaluate_success:
  "\<not> evaluated m \<Longrightarrow> fn w = (Inr v, w') \<Longrightarrow>
   evaluate fn (m, w) = (Inr v, m\<lparr>m_value := v, evaluated := True\<rparr>, w')"
  by (simp add: evaluate_def Let_def)

lemma evaluate_times_cached:
  "evaluated m \<Longrightarrow> evaluate_times k fn (m, w) = (replicate k (Inr (m_value m)), m, w)"
  by (induction k) (simp_all add: evaluate_cached)

lemma counting_apply: "fn w = (r, w') \<Longrightarrow> counting fn (n, w) = (r, (Suc n, w'))"
  by (simp add: counting_def)

section \<open>The claims\<close>

text \<open>
  C1. A generator yielding 1, 2, 3 is wrapped once and traversed twice through
  \<open>__iter__\<close>, each time to the end. The first traversal yields 1, 2, 3 and leaves the
  buffer empty: \<open>chain(self.__consumed, self.__it)\<close> hands the source's elements out
  without appending them. The second traversal therefore yields nothing.
\<close>

theorem second_traversal_is_empty:
  "drain chain_next (iter_regen (regen_init (Generator [1, 2, 3 :: int])))
     = Some ([1, 2, 3], (InSource, \<lparr>regen_it = [], regen_index = 0, regen_consumed = []\<rparr>))
   \<and> drain chain_next (iter_regen \<lparr>regen_it = [] :: int list, regen_index = 0, regen_consumed = []\<rparr>)
     = Some ([], (InSource, \<lparr>regen_it = [], regen_index = 0, regen_consumed = []\<rparr>))"
  by (simp add: drain_iter_regen regen_init_def)

text \<open>
  C2. After two pulls from a traversal of a wrapper around a generator yielding 10, 20, 30
  the source has produced 10 and 20 and the buffer is still empty. \<open>w[0]\<close> then pulls
  30, stores it at position 0 of the buffer and returns it: the buffer does not hold the
  first elements the source produced, before the index access or after it.
\<close>

theorem traversal_pulls_are_not_cached:
  "chain_next (iter_regen (regen_init (Generator [10, 20, 30 :: int])))
     = (Some 10, (InSource, \<lparr>regen_it = [20, 30], regen_index = 0, regen_consumed = []\<rparr>))
   \<and> chain_next (InSource, \<lparr>regen_it = [20, 30 :: int], regen_index = 0, regen_consumed = []\<rparr>)
     = (Some 20, (InSource, \<lparr>regen_it = [30], regen_index = 0, regen_consumed = []\<rparr>))
   \<and> \<not> cache_invariant [10, 20, 30 :: int]
         \<lparr>regen_it = [30], regen_index = 0, regen_consumed = []\<rparr>
   \<and> getitem 0 \<lparr>regen_it = [30 :: int], regen_index = 0, regen_consumed = []\<rparr>
     = (Inr 30, \<lparr>regen_it = [], regen_index = 0, regen_consumed = [30]\<rparr>)
   \<and> \<not> cache_invariant [10, 20, 30 :: int]
         \<lparr>regen_it = [], regen_index = 0, regen_consumed = [30]\<rparr>"
  by (simp add: iter_regen_def regen_init_def source_next_def list_next_def getitem_def
      list_getitem_def pull_range_eq cache_invariant_def)

text \<open>
  C3. On a wrapper around a generator yielding 10, 20, 30, \<open>w[1]\<close> returns 20 with
  10, 20 in the buffer. \<open>w[2]\<close> then runs \<open>range(self.__index, 3)\<close> with
  \<open>__index\<close> still 0, so it asks the source for three more elements: it appends 30, the
  source ends, and the call raises IndexError although index 2 is below the source's
  length 3. Asked again, \<open>w[2]\<close> returns 30 from the buffer.
\<close>

theorem index_after_index_overpulls:
  "getitem 1 (regen_init (Generator [10, 20, 30 :: int]))
     = (Inr 20, \<lparr>regen_it = [30], regen_index = 0, regen_consumed = [10, 20]\<rparr>)
   \<and> getitem 2 \<lparr>regen_it = [30 :: int], regen_index = 0, regen_consumed = [10, 20]\<rparr>
     = (Inl IndexError, \<lparr>regen_it = [], regen_index = 0, regen_consumed = [10, 20, 30]\<rparr>)
   \<and> getitem 2 \<lparr>regen_it = [] :: int list, regen_index = 0, regen_consumed = [10, 20, 30]\<rparr>
     = (Inr 30, \<lparr>regen_it = [], regen_index = 0, regen_consumed = [10, 20, 30]\<rparr>)"
  by (simp add: getitem_def regen_init_def list_getitem_def pull_range_eq)

text \<open>
  C4. \<open>first(lambda x: x > 3, regen(g))\<close> for a generator \<open>g\<close> yielding 1..6 returns
  4. The scan pulls 1, 2, 3, 4 from the source and stops: 5 and 6 are still pending in the
  source of the same wrapper, and nothing has been written to its buffer. A following
  \<open>data\<close> on that wrapper pulls the two and returns 5, 6, which are then its buffer.
\<close>

theorem first_short_circuits_on_regen:
  "first (Some gt3) call chain_next (iter_regen (regen_init (Generator one_to_six)), w)
     = Some (Plain 4,
         ((InSource, \<lparr>regen_it = [Plain 5, Plain 6], regen_index = 0, regen_consumed = []\<rparr>), w))
   \<and> regen (Generator one_to_six) = Regen (regen_init (Generator one_to_six))
   \<and> data \<lparr>regen_it = [Plain 5, Plain 6], regen_index = 0, regen_consumed = []\<rparr>
     = ([Plain 5, Plain 6],
        \<lparr>regen_it = [], regen_index = 0, regen_consumed = [Plain 5, Plain 6]\<rparr>)"
  by (simp add: first_def iter_regen_def regen_init_def regen_def one_to_six_def gt3_def
        first_pull_plain_source first_pull_plain_fresh data_def)

text \<open>
  C5. A memoized value that is not evaluated, whose computation raises on one run and
  returns \<open>v\<close> on the next: the first \<open>evaluate()\<close> raises and leaves the object as
  it was, so \<open>evaluated\<close> is still false; the second runs the computation again (the
  counter goes from 1 to 2), returns \<open>v\<close>, stores it and sets \<open>evaluated\<close>.
\<close>

theorem mlazy_retries_after_failure:
  assumes "\<not> evaluated m" and "fn w0 = (Inl e, w1)" and "fn w1 = (Inr v, w2)"
  shows "evaluate (counting fn) (m, (0, w0)) = (Inl e, m, (1, w1))
       \<and> \<not> evaluated (fst (snd (evaluate (counting fn) (m, (0, w0)))))
       \<and> evaluate (counting fn) (m, (1, w1))
           = (Inr v, m\<lparr>m_value := v, evaluated := True\<rparr>, (2, w2))
       \<and> evaluated (fst (snd (evaluate (counting fn) (m, (1, w1)))))"
proof -
  have c0: "counting fn (0, w0) = (Inl e, (Suc 0, w1))"
    using assms(2) by (rule counting_apply)
  have c1: "counting fn (Suc 0, w1) = (Inr v, (Suc (Suc 0), w2))"
    using assms(3) by (rule counting_apply)
  have one: "evaluate (counting fn) (m, (0, w0)) = (Inl e, m, (Suc 0, w1))"
    using assms(1) c0 by (rule evaluate_failure)
  have two: "evaluate (counting fn) (m, (Suc 0, w1))
      = (Inr v, m\<lparr>m_value := v, evaluated := True\<rparr>, (Suc (Suc 0), w2))"
    using assms(1) c1 by (rule evaluate_success)
  show ?thesis using one two assms(1) by (simp add: numeral_2_eq_2)
qed

theorem mlazy_retries_after_failure_witness:
  "evaluate (counting flaky) (mlazy_new, (0, 0)) = (Inl ''boom'', mlazy_new, (1, 1))
   \<and> evaluate (counting flaky) (mlazy_new, (1, 1))
       = (Inr (Plain 42), \<lparr>evaluated = True, m_value = Plain 42\<rparr>, (2, 2))"
proof -
  have a: "\<not> evaluated (mlazy_new :: (int, unit) mlazy)" by (simp add: mlazy_new_def)
  have b: "flaky 0 = (Inl ''boom'', 1)" by (simp add: flaky_def)
  have c: "flaky 1 = (Inr (Plain 42), 2)" by (simp add: flaky_def)
  from mlazy_retries_after_failure [OF a b c] show ?thesis
    by (simp add: mlazy_new_def)
qed

text \<open>
  C6. A memoized value that is not evaluated and whose computation returns \<open>v\<close>:
  \<open>evaluate()\<close> called once and then \<open>k\<close> more times returns \<open>v\<close> every time, and
  the computation's invocation counter, 0 at the start, is 1 at the end.
\<close>

theorem mlazy_computes_once:
  assumes "\<not> evaluated m" and "fn w0 = (Inr v, w1)"
  shows "evaluate_times (Suc k) (counting fn) (m, (0, w0))
           = (replicate (Suc k) (Inr v), m\<lparr>m_value := v, evaluated := True\<rparr>, (1, w1))"
proof -
  let ?m' = "m\<lparr>m_value := v, evaluated := True\<rparr>"
  have c0: "counting fn (0, w0) = (Inr v, (Suc 0, w1))"
    using assms(2) by (rule counting_apply)
  have one: "evaluate (counting fn) (m, (0, w0)) = (Inr v, ?m', (Suc 0, w1))"
    using assms(1) c0 by (rule evaluate_success)
  have rest: "evaluate_times k (counting fn) (?m', (Suc 0, w1))
          = (replicate k (Inr (m_value ?m')), ?m', (Suc 0, w1))"
    by (rule evaluate_times_cached) simp
  show ?thesis using one rest by simp
qed

theorem mlazy_computes_once_witness:
  "evaluate_times 4 (counting flaky) (mlazy_new, (0, 1))
     = ([Inr (Plain 42), Inr (Plain 42), Inr (Plain 42), Inr (Plain 42)],
        \<lparr>evaluated = True, m_value = Plain 42\<rparr>, (1, 2))"
proof -
  have a: "\<not> evaluated (mlazy_new :: (int, unit) mlazy)" by (simp add: mlazy_new_def)
  have b: "flaky 1 = (Inr (Plain 42), 2)" by (simp add: flaky_def)
  from mlazy_computes_once [of mlazy_new flaky 1 "Plain 42" 2 3, OF a b] show ?thesis
    by (simp add: mlazy_new_def numeral_eq_Suc)
qed

text \<open>
  C7. On a fresh wrapper around a generator yielding \<open>xs\<close>, \<open>w[i]\<close> with a negative
  \<open>i\<close> drains the whole source into the buffer and indexes the buffer from its end:
  it returns \<open>xs[len(xs) + i]\<close> when \<open>-len(xs) \<le> i\<close> and raises IndexError otherwise,
  and \<open>w[-1]\<close> is the last element of a non-empty \<open>xs\<close>. From then on the wrapper is
  the list \<open>xs\<close>: every index behaves as it does on \<open>xs\<close> and changes nothing, a
  traversal yields \<open>xs\<close>, and \<open>data\<close> is \<open>xs\<close>.
\<close>

theorem negative_index_materializes:
  assumes "i < 0"
  shows "getitem i (regen_init (Generator xs))
           = (if - int (length xs) \<le> i then Inr (xs ! nat (int (length xs) + i))
              else Inl IndexError,
              \<lparr>regen_it = [], regen_index = 0, regen_consumed = xs\<rparr>)
       \<and> (xs \<noteq> [] \<longrightarrow>
            getitem (- 1) (regen_init (Generator xs))
              = (Inr (last xs), \<lparr>regen_it = [], regen_index = 0, regen_consumed = xs\<rparr>))
       \<and> (\<forall>j. getitem j \<lparr>regen_it = [], regen_index = 0, regen_consumed = xs\<rparr>
                 = (list_getitem xs j, \<lparr>regen_it = [], regen_index = 0, regen_consumed = xs\<rparr>))
       \<and> drain chain_next (iter_regen \<lparr>regen_it = [], regen_index = 0, regen_consumed = xs\<rparr>)
           = Some (xs, (InSource, \<lparr>regen_it = [], regen_index = 0, regen_consumed = xs\<rparr>))
       \<and> data \<lparr>regen_it = [], regen_index = 0, regen_consumed = xs\<rparr>
           = (xs, \<lparr>regen_it = [], regen_index = 0, regen_consumed = xs\<rparr>)"
proof -
  have a: "getitem i (regen_init (Generator xs))
           = (if - int (length xs) \<le> i then Inr (xs ! nat (int (length xs) + i))
              else Inl IndexError,
              \<lparr>regen_it = [], regen_index = 0, regen_consumed = xs\<rparr>)"
    using assms by (rule getitem_negative_fresh)
  have b: "xs \<noteq> [] \<longrightarrow>
            getitem (- 1) (regen_init (Generator xs))
              = (Inr (last xs), \<lparr>regen_it = [], regen_index = 0, regen_consumed = xs\<rparr>)"
  proof
    assume ne: "xs \<noteq> []"
    then have "- int (length xs) \<le> - 1" by (cases xs) simp_all
    moreover have "xs ! nat (int (length xs) + - 1) = last xs"
      using ne by (rule nth_last_int)
    ultimately show "getitem (- 1) (regen_init (Generator xs))
              = (Inr (last xs), \<lparr>regen_it = [], regen_index = 0, regen_consumed = xs\<rparr>)"
      using getitem_negative_fresh [of "- 1" xs] by simp
  qed
  have c: "\<forall>j. getitem j \<lparr>regen_it = [], regen_index = 0, regen_consumed = xs\<rparr>
                 = (list_getitem xs j, \<lparr>regen_it = [], regen_index = 0, regen_consumed = xs\<rparr>)"
    by (simp add: getitem_drained)
  have d: "drain chain_next (iter_regen \<lparr>regen_it = [], regen_index = 0, regen_consumed = xs\<rparr>)
           = Some (xs, (InSource, \<lparr>regen_it = [], regen_index = 0, regen_consumed = xs\<rparr>))"
    by (simp add: drain_iter_regen)
  have e: "data \<lparr>regen_it = [], regen_index = 0, regen_consumed = xs\<rparr>
           = (xs, \<lparr>regen_it = [], regen_index = 0, regen_consumed = xs\<rparr>)"
    by (simp add: data_eq)
  from a b c d e show ?thesis by blast
qed

theorem negative_index_materializes_witness:
  "getitem (- 1) (regen_init (Generator [10, 20, 30 :: int]))
     = (Inr 30, \<lparr>regen_it = [], regen_index = 0, regen_consumed = [10, 20, 30]\<rparr>)
   \<and> getitem (- 3) (regen_init (Generator [10, 20, 30 :: int]))
     = (Inr 10, \<lparr>regen_it = [], regen_index = 0, regen_consumed = [10, 20, 30]\<rparr>)
   \<and> getitem 1 \<lparr>regen_it = [], regen_index = 0, regen_consumed = [10, 20, 30 :: int]\<rparr>
     = (Inr 20, \<lparr>regen_it = [], regen_index = 0, regen_consumed = [10, 20, 30]\<rparr>)
   \<and> getitem 3 \<lparr>regen_it = [], regen_index = 0, regen_consumed = [10, 20, 30 :: int]\<rparr>
     = (Inl IndexError, \<lparr>regen_it = [], regen_index = 0, regen_consumed = [10, 20, 30]\<rparr>)"
proof -
  have m1: "(- 1 :: int) < 0" by simp
  have m3: "(- 3 :: int) < 0" by simp
  from negative_index_materializes [OF m1, of "[10, 20, 30 :: int]"]
       negative_index_materializes [OF m3, of "[10, 20, 30 :: int]"]
  show ?thesis by (simp add: list_getitem_def)
qed

text \<open>
  C8, as stated, at a wrapper built earlier whose source still has 1 and 2 pending:
  \<open>regen\<close> returns it unchanged, though it is not a concrete, fixed-length sequence.
\<close>

theorem regen_passes_wrappers_through:
  "regen (Regen \<lparr>regen_it = [1, 2 :: int], regen_index = 0, regen_consumed = []\<rparr>)
     = Regen \<lparr>regen_it = [1, 2], regen_index = 0, regen_consumed = []\<rparr>
   \<and> \<not> concrete_fixed_sequence
         (Regen \<lparr>regen_it = [1, 2 :: int], regen_index = 0, regen_consumed = []\<rparr>)"
  by (simp add: regen_def concrete_fixed_sequence_def)

text \<open>
  C8, amended. \<open>regen\<close> returns its input itself exactly when the input is a list, a
  tuple or a wrapper built earlier (\<open>_regen\<close> is a subclass of \<open>list\<close>); a generator
  it wraps in a fresh wrapper with the generator as source, cursor 0 and an empty buffer.
\<close>

theorem regen_wraps_unless_list_or_tuple:
  "(regen it = it) = (concrete_fixed_sequence it \<or> (\<exists>r. it = Regen r))
   \<and> regen it =
       (case it of
          Generator xs \<Rightarrow> Regen \<lparr>regen_it = xs, regen_index = 0, regen_consumed = []\<rparr>
        | _ \<Rightarrow> it)"
  by (cases it) (simp_all add: regen_def regen_init_def concrete_fixed_sequence_def)

text \<open>
  C9. \<open>__reduce__\<close> reads \<open>data\<close>, so it drains the source itself: it returns the
  constructor \<open>list\<close> with the buffer after the drain, which is the old buffer followed
  by everything the source still had, and it leaves the source empty. For a fresh wrapper
  around a generator yielding \<open>xs\<close> the list is \<open>xs\<close>.
\<close>

theorem reduce_materializes:
  "reduce r = (ListOf (regen_consumed r @ regen_it r),
               r\<lparr>regen_it := [], regen_consumed := regen_consumed r @ regen_it r\<rparr>)
   \<and> regen_it (snd (reduce r)) = []
   \<and> fst (reduce r) = ListOf (regen_consumed (snd (reduce r)))
   \<and> reduce (regen_init (Generator xs))
       = (ListOf xs, \<lparr>regen_it = [], regen_index = 0, regen_consumed = xs\<rparr>)"
  by (simp add: reduce_def data_eq regen_init_def)

text \<open>
  C10. Run to its end over a sequence \<open>vs\<close>, \<open>evaluate_promises\<close> yields what the
  one-level pass \<open>resolve_each\<close> gives and leaves the world that pass leaves. With calls
  that are recorded, the output is \<open>vs\<close> with each promise \<open>p\<close> replaced by \<open>f p\<close>,
  which is yielded as it is even if it is a promise again, every other element is yielded
  unchanged, and the calls made are exactly the promises of \<open>vs\<close>, once each, in order.
\<close>

theorem evaluate_promises_unwraps_one_level:
  "drain (evaluate_promises call list_next) (vs, w)
     = Some (fst (resolve_each call vs w), ([], snd (resolve_each call vs w)))
   \<and> drain (evaluate_promises (logged f) list_next) (vs, calls)
     = Some (map (unwrap_once f) vs, ([], calls @ promises_of vs))
   \<and> unwrap_once f (Promise p) = f p
   \<and> unwrap_once f (Plain x) = Plain x
   \<and> unwrap_once f PyNone = PyNone"
  by (simp add: drain_evaluate_promises resolve_each_logged unwrap_once_def)

end
